theory Spec2Isabelle
  imports Main
begin

section \<open>Host strings, errors and the engine\<close>

text \<open>
  An element of a host character vector is either the missing-value sentinel
  \<^verbatim>\<open>NA_STRING\<close> (\<open>None\<close>) or a string. A character vector is a list of such
  elements; \<^verbatim>\<open>CharacterVector v(n)\<close> is \<open>n\<close> blank strings and
  \<^verbatim>\<open>CharacterVector v(n, NA_STRING)\<close> is \<open>n\<close> sentinels. Vector lengths and
  the loop counters are natural numbers: the model covers batches whose length fits
  the \<^verbatim>\<open>unsigned int\<close> that the code stores it in.
\<close>

type_synonym rstring = "string option"
type_synonym charvec = "rstring list"

datatype error = SetupFailed | LengthMismatch | ReplaceOutOfRange | SlotOutOfBounds

text \<open>
  The address engine is a parameter: \<^verbatim>\<open>expand_address\<close> gives the list of
  expansions (\<^verbatim>\<open>num_expansions\<close> is its length), \<^verbatim>\<open>parse_address\<close> gives the
  response's labels and components, paired by position.
\<close>

record engine =
  expand_address :: "string \<Rightarrow> string list"
  parse_address :: "string \<Rightarrow> (string \<times> string) list"

section \<open>setup (here setup_libpostal: setup is an Isabelle keyword)\<close>

datatype init_call = Libpostal_setup | Setup_language_classifier | Setup_parser

text \<open>
  \<open>init c\<close> is what the initialisation \<open>c\<close> returns when it is called. The three
  calls are joined by \<^verbatim>\<open>||\<close>, so a later one runs only if the earlier ones
  succeeded; the first component of the result lists the calls made.
\<close>

definition setup_libpostal :: "(init_call \<Rightarrow> bool) \<Rightarrow> init_call list \<times> (error + unit)" where
  "setup_libpostal init =
     (if \<not> init Libpostal_setup then ([Libpostal_setup], Inl SetupFailed)
      else if \<not> init Setup_language_classifier
        then ([Libpostal_setup, Setup_language_classifier], Inl SetupFailed)
      else if \<not> init Setup_parser
        then ([Libpostal_setup, Setup_language_classifier, Setup_parser], Inl SetupFailed)
      else ([Libpostal_setup, Setup_language_classifier, Setup_parser], Inr ()))"

section \<open>isna and parse_single\<close>

definition isna :: "string \<Rightarrow> rstring" where
  "isna x = (if x = '''' then None else Some x)"

text \<open>The body of the loop over the response: ten independent tests of the label.\<close>

definition store_component :: "charvec \<Rightarrow> string \<times> string \<Rightarrow> charvec" where
  "store_component output p =
     (let label = fst p; component = snd p;
          output = (if label = ''house'' then output[0 := isna component] else output);
          output = (if label = ''house_number'' then output[1 := isna component] else output);
          output = (if label = ''road'' then output[2 := isna component] else output);
          output = (if label = ''suburb'' then output[3 := isna component] else output);
          output = (if label = ''city_district'' then output[4 := isna component] else output);
          output = (if label = ''city'' then output[5 := isna component] else output);
          output = (if label = ''state_district'' then output[6 := isna component] else output);
          output = (if label = ''state'' then output[7 := isna component] else output);
          output = (if label = ''postal_code'' then output[8 := isna component] else output);
          output = (if label = ''country'' then output[9 := isna component] else output)
      in output)"

definition parse_single :: "engine \<Rightarrow> string \<Rightarrow> charvec" where
  "parse_single e x = foldl store_component (replicate 10 None) (parse_address e x)"

text \<open>The ten field names, in the order of the slots and of the columns.\<close>

definition field_names :: "string list" where
  "field_names = [''house'', ''house_number'', ''road'', ''suburb'', ''city_district'',
     ''city'', ''state_district'', ''state'', ''postal_code'', ''country'']"

section \<open>Counting loops\<close>

text \<open>
  \<^verbatim>\<open>for (...; i < input_size; i++)\<close> over a state \<open>s\<close>. The second loop is for
  bodies that can raise: the state is the pair of the engine calls made so far and
  the output vector, and an error ends the loop with the calls made up to it.

  The engine calls that the model records are those of \<^verbatim>\<open>expand_address\<close> and
  \<^verbatim>\<open>parse_address\<close>, by the index of the element they are made for. Each
  operation also fetches the engine's default options once, before its first test
  or loop; that call is not recorded. The loops call \<^verbatim>\<open>Rcpp::checkUserInterrupt\<close>
  every 10000 iterations; the model describes the runs that the user does not
  interrupt.
\<close>

function for_loop :: "(nat \<Rightarrow> 's \<Rightarrow> 's) \<Rightarrow> nat \<Rightarrow> nat \<Rightarrow> 's \<Rightarrow> 's" where
  "for_loop body i input_size s =
     (if i < input_size then for_loop body (Suc i) input_size (body i s) else s)"
  by pat_completeness auto
termination
  by (relation "measure (\<lambda>(body, i, input_size, s). input_size - i)") auto

declare for_loop.simps [simp del]

function for_loop_exn ::
  "(nat \<Rightarrow> nat list \<times> 'a \<Rightarrow> nat list \<times> (error + 'a)) \<Rightarrow> nat \<Rightarrow> nat \<Rightarrow> nat list \<times> 'a
     \<Rightarrow> nat list \<times> (error + 'a)" where
  "for_loop_exn body i input_size s =
     (if i < input_size
      then (case body i s of
              (calls, Inl err) \<Rightarrow> (calls, Inl err)
            | (calls, Inr output) \<Rightarrow> for_loop_exn body (Suc i) input_size (calls, output))
      else (fst s, Inr (snd s)))"
  by pat_completeness auto
termination
  by (relation "measure (\<lambda>(body, i, input_size, s). input_size - i)") auto

declare for_loop_exn.simps [simp del]

section \<open>address_normalise\<close>

text \<open>
  The state of the loop is the list of indices for which the engine has been called
  and the output vector. The counter starts at 0. The functions modelled from here
  on are those of \<^verbatim>\<open>postal.cpp\<close>; the second source file holds \<open>setup\<close> and
  earlier copies of the normaliser and of the batch parser.
\<close>

definition normalise_step :: "engine \<Rightarrow> charvec \<Rightarrow> nat \<Rightarrow> nat list \<times> charvec \<Rightarrow> nat list \<times> charvec" where
  "normalise_step e addresses i s =
     (let calls = fst s; output = snd s in
      case addresses ! i of
        None \<Rightarrow> (calls, output[i := None])
      | Some a \<Rightarrow>
          (let expansions = expand_address e a in
           if length expansions = 0 then (calls @ [i], output[i := addresses ! i])
           else (calls @ [i], output[i := Some (expansions ! 0)])))"

definition address_normalise :: "engine \<Rightarrow> charvec \<Rightarrow> nat list \<times> charvec" where
  "address_normalise e addresses =
     (let input_size = length addresses;
          output = replicate input_size (Some '''')
      in for_loop (normalise_step e addresses) 0 input_size ([], output))"

section \<open>parse_addr\<close>

text \<open>
  The loops of \<^verbatim>\<open>parse_addr\<close>, \<^verbatim>\<open>get_elements\<close> and \<^verbatim>\<open>set_elements\<close>
  declare their counter as \<^verbatim>\<open>unsigned int i;\<close> with no initialiser, so the value
  the counter starts from is not fixed by the program. It is the parameter \<open>i0\<close> of
  the three functions.
\<close>

record columns =
  house :: charvec
  house_number :: charvec
  road :: charvec
  suburb :: charvec
  city_district :: charvec
  city :: charvec
  state_district :: charvec
  state :: charvec
  postal_code :: charvec
  country :: charvec

definition parse_step :: "engine \<Rightarrow> charvec \<Rightarrow> nat \<Rightarrow> nat list \<times> columns \<Rightarrow> nat list \<times> columns" where
  "parse_step e addresses i s =
     (let calls = fst s; c = snd s in
      case addresses ! i of
        None \<Rightarrow> (calls, c)
      | Some a \<Rightarrow>
          (let holding = parse_single e a in
           (calls @ [i],
            c\<lparr>house := (house c)[i := holding ! 0],
              house_number := (house_number c)[i := holding ! 1],
              road := (road c)[i := holding ! 2],
              suburb := (suburb c)[i := holding ! 3],
              city_district := (city_district c)[i := holding ! 4],
              city := (city c)[i := holding ! 5],
              state_district := (state_district c)[i := holding ! 6],
              state := (state c)[i := holding ! 7],
              postal_code := (postal_code c)[i := holding ! 8],
              country := (country c)[i := holding ! 9]\<rparr>)))"

text \<open>The data frame is the list of its named columns, in the order of creation.\<close>

definition data_frame :: "columns \<Rightarrow> (string \<times> charvec) list" where
  "data_frame c =
     [(''house'', house c), (''house_number'', house_number c), (''road'', road c),
      (''suburb'', suburb c), (''city_district'', city_district c), (''city'', city c),
      (''state_district'', state_district c), (''state'', state c),
      (''postal_code'', postal_code c), (''country'', country c)]"

definition na_columns :: "nat \<Rightarrow> columns" where
  "na_columns input_size =
     \<lparr>house = replicate input_size None, house_number = replicate input_size None,
      road = replicate input_size None, suburb = replicate input_size None,
      city_district = replicate input_size None, city = replicate input_size None,
      state_district = replicate input_size None, state = replicate input_size None,
      postal_code = replicate input_size None, country = replicate input_size None\<rparr>"

definition parse_addr :: "engine \<Rightarrow> nat \<Rightarrow> charvec \<Rightarrow> nat list \<times> (string \<times> charvec) list" where
  "parse_addr e i0 addresses =
     (let input_size = length addresses;
          s = for_loop (parse_step e addresses) i0 input_size ([], na_columns input_size)
      in (fst s, data_frame (snd s)))"

section \<open>get_elements\<close>

text \<open>
  \<^verbatim>\<open>holding[element]\<close> with an \<^verbatim>\<open>int\<close> index and no check: an index outside the
  ten slots reads outside the vector, which the model records as \<open>SlotOutOfBounds\<close>.
\<close>

definition slot :: "charvec \<Rightarrow> int \<Rightarrow> error + rstring" where
  "slot holding element =
     (if 0 \<le> element \<and> element < int (length holding) then Inr (holding ! nat element)
      else Inl SlotOutOfBounds)"

definition get_step ::
  "engine \<Rightarrow> charvec \<Rightarrow> int \<Rightarrow> nat \<Rightarrow> nat list \<times> charvec \<Rightarrow> nat list \<times> (error + charvec)" where
  "get_step e addresses element i s =
     (let calls = fst s; output = snd s in
      case addresses ! i of
        None \<Rightarrow> (calls, Inr (output[i := None]))
      | Some a \<Rightarrow>
          (case slot (parse_single e a) element of
             Inl err \<Rightarrow> (calls @ [i], Inl err)
           | Inr v \<Rightarrow> (calls @ [i], Inr (output[i := v]))))"

definition get_elements :: "engine \<Rightarrow> nat \<Rightarrow> charvec \<Rightarrow> int \<Rightarrow> nat list \<times> (error + charvec)" where
  "get_elements e i0 addresses element =
     (let input_size = length addresses;
          output = replicate input_size (Some '''')
      in for_loop_exn (get_step e addresses element) i0 input_size ([], output))"

section \<open>set_elements\<close>

text \<open>
  \<^verbatim>\<open>std::string::find\<close> gives the position of the first occurrence, or
  \<^verbatim>\<open>npos\<close> (\<open>None\<close>) when there is none. \<^verbatim>\<open>std::string::replace(pos, len, str)\<close>
  throws \<^verbatim>\<open>std::out_of_range\<close> when \<open>pos\<close> is greater than the size of the string,
  which \<^verbatim>\<open>npos\<close>, the largest value of its type, always is.
\<close>

fun string_find :: "string \<Rightarrow> string \<Rightarrow> nat option" where
  "string_find [] needle = (if needle = [] then Some 0 else None)"
| "string_find (c # cs) needle =
     (if take (length needle) (c # cs) = needle then Some 0
      else map_option Suc (string_find cs needle))"

definition string_replace :: "string \<Rightarrow> nat option \<Rightarrow> nat \<Rightarrow> string \<Rightarrow> error + string" where
  "string_replace s pos len str =
     (case pos of
        None \<Rightarrow> Inl ReplaceOutOfRange
      | Some p \<Rightarrow>
          if length s < p then Inl ReplaceOutOfRange
          else Inr (take p s @ str @ drop (p + min len (length s - p)) s))"

text \<open>
  The block that both loops of \<^verbatim>\<open>set_elements\<close> run for a present address \<open>a\<close>
  and a present new value \<open>nv\<close>.
\<close>

definition replace_field :: "engine \<Rightarrow> string \<Rightarrow> int \<Rightarrow> string \<Rightarrow> error + rstring" where
  "replace_field e a element nv =
     (let holding = parse_single e a in
      case slot holding element of
        Inl err \<Rightarrow> Inl err
      | Inr None \<Rightarrow> Inr (Some a)
      | Inr (Some h) \<Rightarrow>
          (case string_replace a (string_find a h) (length h) nv of
             Inl err \<Rightarrow> Inl err
           | Inr addr_cp \<Rightarrow> Inr (Some addr_cp)))"

definition set_step_single ::
  "engine \<Rightarrow> charvec \<Rightarrow> string \<Rightarrow> int \<Rightarrow> nat \<Rightarrow> nat list \<times> charvec \<Rightarrow> nat list \<times> (error + charvec)" where
  "set_step_single e addresses nv element i s =
     (let calls = fst s; output = snd s in
      case addresses ! i of
        None \<Rightarrow> (calls, Inr (output[i := None]))
      | Some a \<Rightarrow>
          (case replace_field e a element nv of
             Inl err \<Rightarrow> (calls @ [i], Inl err)
           | Inr v \<Rightarrow> (calls @ [i], Inr (output[i := v]))))"

definition set_step_each ::
  "engine \<Rightarrow> charvec \<Rightarrow> charvec \<Rightarrow> int \<Rightarrow> nat \<Rightarrow> nat list \<times> charvec \<Rightarrow> nat list \<times> (error + charvec)" where
  "set_step_each e addresses new_value element i s =
     (let calls = fst s; output = snd s in
      case addresses ! i of
        None \<Rightarrow> (calls, Inr (output[i := None]))
      | Some a \<Rightarrow>
          (case new_value ! i of
             None \<Rightarrow> (calls, Inr (output[i := addresses ! i]))
           | Some nv \<Rightarrow>
               (case replace_field e a element nv of
                  Inl err \<Rightarrow> (calls @ [i], Inl err)
                | Inr v \<Rightarrow> (calls @ [i], Inr (output[i := v])))))"

definition set_elements ::
  "engine \<Rightarrow> nat \<Rightarrow> charvec \<Rightarrow> charvec \<Rightarrow> int \<Rightarrow> nat list \<times> (error + charvec)" where
  "set_elements e i0 addresses new_value element =
     (let input_size = length addresses;
          output = replicate input_size (Some '''')
      in if length new_value = 1
         then (case new_value ! 0 of
                 None \<Rightarrow> ([], Inr addresses)
               | Some nv \<Rightarrow>
                   for_loop_exn (set_step_single e addresses nv element) i0 input_size ([], output))
         else if length new_value = input_size
         then for_loop_exn (set_step_each e addresses new_value element) i0 input_size ([], output)
         else ([], Inl LengthMismatch))"

section \<open>Engines for the concrete instances\<close>

text \<open>
  \<open>silent_engine\<close> answers nothing. \<open>example_engine\<close> lower-cases what it parses,
  as the real parser does, and for the text \<open>dup\<close> emits a label twice, an unknown
  label and an empty component. \<open>known_engine\<close> emits the pairs of \<open>example_engine\<close>
  for \<open>dup\<close> without the unknown label.
\<close>

definition silent_engine :: engine where
  "silent_engine = \<lparr>expand_address = (\<lambda>a. []), parse_address = (\<lambda>a. [])\<rparr>"

definition example_engine :: engine where
  "example_engine =
     \<lparr>expand_address = (\<lambda>a. if a = ''12 bar rd'' then [''12 bar road'', ''12 bar rd''] else []),
      parse_address = (\<lambda>a.
        if a = ''dup''
        then [(''road'', ''first''), (''island'', ''q''), (''city'', ''''), (''road'', ''last'')]
        else [(''road'', ''bar rd''), (''house_number'', ''12'')])\<rparr>"

definition known_engine :: engine where
  "known_engine =
     \<lparr>expand_address = (\<lambda>a. []),
      parse_address = (\<lambda>a. [(''road'', ''first''), (''city'', ''''), (''road'', ''last'')])\<rparr>"

text \<open>\<open>reversed_engine\<close> emits the pairs of \<open>example_engine\<close> in the opposite order.\<close>

definition reversed_engine :: engine where
  "reversed_engine =
     \<lparr>expand_address = (\<lambda>a. []),
      parse_address = (\<lambda>a. [(''house_number'', ''12''), (''road'', ''bar rd'')])\<rparr>"

section \<open>Facts about the loops\<close>

lemma for_loop_skip: "input_size \<le> i \<Longrightarrow> for_loop body i input_size s = s"
  by (simp add: for_loop.simps)

lemma for_loop_rule:
  assumes "P i s"
    and "\<And>j t. i \<le> j \<Longrightarrow> j < input_size \<Longrightarrow> P j t \<Longrightarrow> P (Suc j) (body j t)"
    and "i \<le> input_size"
  shows "P input_size (for_loop body i input_size s)"
  using assms
proof (induction body i input_size s rule: for_loop.induct)
  case (1 body i input_size s)
  show ?case
  proof (cases "i < input_size")
    case True
    have "P (Suc i) (body i s)"
      using "1.prems"(1,2) True by simp
    moreover have "\<And>j t. Suc i \<le> j \<Longrightarrow> j < input_size \<Longrightarrow> P j t \<Longrightarrow> P (Suc j) (body j t)"
      using "1.prems"(2) by simp
    ultimately have "P input_size (for_loop body (Suc i) input_size (body i s))"
      using "1.IH" True by simp
    then show ?thesis
      using True by (simp add: for_loop.simps [of body i])
  next
    case False
    then have "i = input_size"
      using "1.prems"(3) by simp
    then show ?thesis
      using "1.prems"(1) by (simp add: for_loop.simps)
  qed
qed

lemma for_loop_exn_skip:
  "input_size \<le> i \<Longrightarrow> for_loop_exn body i input_size s = (fst s, Inr (snd s))"
  by (simp add: for_loop_exn.simps)

lemma for_loop_exn_rule:
  assumes "for_loop_exn body i input_size s = (calls, Inr out)"
    and "P i s"
    and "\<And>j t calls' out'. i \<le> j \<Longrightarrow> j < input_size \<Longrightarrow> P j t
           \<Longrightarrow> body j t = (calls', Inr out') \<Longrightarrow> P (Suc j) (calls', out')"
    and "i \<le> input_size"
  shows "P input_size (calls, out)"
  using assms
proof (induction body i input_size s rule: for_loop_exn.induct)
  case (1 body i input_size s)
  show ?case
  proof (cases "i < input_size")
    case True
    from "1.prems"(1) True obtain calls' out' where
      b: "body i s = (calls', Inr out')" and
      r: "for_loop_exn body (Suc i) input_size (calls', out') = (calls, Inr out)"
      by (auto simp: for_loop_exn.simps [of body i] split: prod.splits sum.splits)
    have p: "P (Suc i) (calls', out')"
      using "1.prems"(2,3) True b by simp
    have st: "\<And>j t calls' out'. Suc i \<le> j \<Longrightarrow> j < input_size \<Longrightarrow> P j t
           \<Longrightarrow> body j t = (calls', Inr out') \<Longrightarrow> P (Suc j) (calls', out')"
      using "1.prems"(3) by simp
    show ?thesis
      using "1.IH" [OF True b [symmetric] refl r p st] True by simp
  next
    case False
    then have "i = input_size"
      using "1.prems"(4) by simp
    then show ?thesis
      using "1.prems"(1,2) by (cases s) (simp add: for_loop_exn.simps)
  qed
qed

lemma for_loop_exn_error:
  assumes "for_loop_exn body i input_size s = (calls, Inl err)"
    and "P i s"
    and "\<And>j t calls' out'. i \<le> j \<Longrightarrow> j < input_size \<Longrightarrow> P j t
           \<Longrightarrow> body j t = (calls', Inr out') \<Longrightarrow> P (Suc j) (calls', out')"
  shows "\<exists>j t. i \<le> j \<and> j < input_size \<and> P j t \<and> body j t = (calls, Inl err)"
  using assms
proof (induction body i input_size s rule: for_loop_exn.induct)
  case (1 body i input_size s)
  show ?case
  proof (cases "i < input_size")
    case True
    show ?thesis
    proof (cases "body i s")
      case (Pair calls' r)
      show ?thesis
      proof (cases r)
        case (Inl err')
        then have "body i s = (calls, Inl err)"
          using "1.prems"(1) True Pair by (simp add: for_loop_exn.simps [of body i])
        then show ?thesis
          using True "1.prems"(2) by blast
      next
        case (Inr out')
        then have b: "body i s = (calls', Inr out')"
          using Pair by simp
        have r: "for_loop_exn body (Suc i) input_size (calls', out') = (calls, Inl err)"
          using "1.prems"(1) True b by (simp add: for_loop_exn.simps [of body i])
        have p: "P (Suc i) (calls', out')"
          using "1.prems"(2,3) True b by simp
        have st: "\<And>j t calls' out'. Suc i \<le> j \<Longrightarrow> j < input_size \<Longrightarrow> P j t
           \<Longrightarrow> body j t = (calls', Inr out') \<Longrightarrow> P (Suc j) (calls', out')"
          using "1.prems"(3) by simp
        have "\<exists>j t. Suc i \<le> j \<and> j < input_size \<and> P j t \<and> body j t = (calls, Inl err)"
          by (rule "1.IH" [OF True b [symmetric] refl r p st])
        then obtain j where "\<exists>t. Suc i \<le> j \<and> j < input_size \<and> P j t \<and> body j t = (calls, Inl err)" ..
        then obtain t where j: "Suc i \<le> j \<and> j < input_size \<and> P j t \<and> body j t = (calls, Inl err)" ..
        then have "i \<le> j \<and> j < input_size \<and> P j t \<and> body j t = (calls, Inl err)"
          by simp
        then show ?thesis
          by (intro exI [of _ j] exI [of _ t])
      qed
    qed
  next
    case False
    then have "for_loop_exn body i input_size s = (fst s, Inr (snd s))"
      by (simp add: for_loop_exn_skip)
    then show ?thesis
      using "1.prems"(1) by simp
  qed
qed

section \<open>The single-address parser\<close>

lemma length_store_component: "length (store_component out p) = length out"
  by (simp add: store_component_def Let_def)

lemma length_foldl_store: "length (foldl store_component out ps) = length out"
  by (induction ps arbitrary: out) (simp_all add: length_store_component)

lemma length_parse_single: "length (parse_single e x) = 10"
  by (simp add: parse_single_def length_foldl_store)

lemma less_ten_cases:
  "k < 10 \<Longrightarrow> k = 0 \<or> k = 1 \<or> k = 2 \<or> k = 3 \<or> k = 4 \<or> k = 5 \<or> k = 6 \<or> k = 7 \<or> k = 8 \<or> k = (9::nat)"
  by arith

lemma store_component_nth:
  assumes "k < 10" and "length out = 10"
  shows "store_component out p ! k = (if fst p = field_names ! k then isna (snd p) else out ! k)"
  using less_ten_cases [OF assms(1)] assms(2)
  by (elim disjE) (simp_all add: store_component_def field_names_def Let_def)

lemma store_component_unknown:
  "fst p \<notin> set field_names \<Longrightarrow> store_component out p = out"
  by (simp add: store_component_def field_names_def Let_def)

lemma foldl_store_nth:
  assumes "k < 10" and "length out = 10"
  shows "foldl store_component out ps ! k =
    (case find (\<lambda>p. fst p = field_names ! k) (rev ps) of None \<Rightarrow> out ! k | Some p \<Rightarrow> isna (snd p))"
proof (induction ps rule: rev_induct)
  case Nil
  show ?case by simp
next
  case (snoc p ps)
  have "length (foldl store_component out ps) = 10"
    using assms(2) by (simp add: length_foldl_store)
  then show ?case
    using snoc by (simp add: store_component_nth [OF assms(1)])
qed

lemma foldl_store_filter:
  "foldl store_component out (filter (\<lambda>p. fst p \<in> set field_names) ps) = foldl store_component out ps"
  by (induction ps arbitrary: out) (simp_all add: store_component_unknown)

text \<open>
  Claim C2. For a present address, \<open>parse_single\<close> returns ten slots, all absent
  when the engine emits no pair. Slot \<open>k\<close> is \<open>isna\<close> of the component of the last
  pair whose label is the \<open>k\<close>-th field name, and absent when no pair has that label.
  Pairs whose label is none of the ten names change nothing: an engine that emits
  only the pairs with known labels yields the same record.
\<close>

theorem parse_single_record:
  "length (parse_single e x) = 10
   \<and> (parse_address e x = [] \<longrightarrow> parse_single e x = replicate 10 None)
   \<and> (\<forall>k<10. parse_single e x ! k =
        (case find (\<lambda>p. fst p = field_names ! k) (rev (parse_address e x)) of
           None \<Rightarrow> None | Some p \<Rightarrow> isna (snd p)))
   \<and> (\<forall>e'::engine. parse_address e' x = filter (\<lambda>p. fst p \<in> set field_names) (parse_address e x)
         \<longrightarrow> parse_single e' x = parse_single e x)"
proof (intro conjI allI impI)
  show "length (parse_single e x) = 10" by (rule length_parse_single)
next
  assume "parse_address e x = []"
  then show "parse_single e x = replicate 10 None" by (simp add: parse_single_def)
next
  fix k :: nat assume "k < 10"
  then show "parse_single e x ! k =
        (case find (\<lambda>p. fst p = field_names ! k) (rev (parse_address e x)) of
           None \<Rightarrow> None | Some p \<Rightarrow> isna (snd p))"
    by (simp add: parse_single_def foldl_store_nth split: option.splits)
next
  fix e' :: engine assume "parse_address e' x = filter (\<lambda>p. fst p \<in> set field_names) (parse_address e x)"
  then show "parse_single e' x = parse_single e x"
    by (simp add: parse_single_def foldl_store_filter)
qed

theorem parse_single_record_witness:
  "parse_address silent_engine ''x'' = [] \<and> parse_single silent_engine ''x'' = replicate 10 None
   \<and> (2::nat) < 10 \<and> parse_single example_engine ''dup'' ! 2 = Some ''last''
   \<and> (5::nat) < 10 \<and> parse_single example_engine ''dup'' ! 5 = None
   \<and> parse_address known_engine ''dup''
       = filter (\<lambda>p. fst p \<in> set field_names) (parse_address example_engine ''dup'')
   \<and> parse_single known_engine ''dup'' = parse_single example_engine ''dup''"
  using parse_single_record [of silent_engine "''x''"]
    parse_single_record [of example_engine "''dup''"]
  by (simp add: silent_engine_def example_engine_def known_engine_def field_names_def isna_def)

section \<open>setup and the short-circuit of set_elements\<close>

text \<open>
  Claim C8. \<open>setup\<close> raises exactly when one of the three initialisations reports
  failure, which is then one of those it called; it returns normally exactly when all
  three report success, and then it has called all three.
\<close>

theorem setup_raises_iff_some_init_fails:
  "(snd (setup_libpostal init) = Inl SetupFailed \<longleftrightarrow> (\<exists>c. \<not> init c))
   \<and> (snd (setup_libpostal init) = Inl SetupFailed
        \<longleftrightarrow> (\<exists>c \<in> set (fst (setup_libpostal init)). \<not> init c))
   \<and> (snd (setup_libpostal init) = Inr () \<longleftrightarrow> (\<forall>c. init c))
   \<and> (snd (setup_libpostal init) = Inr ()
        \<longrightarrow> fst (setup_libpostal init) = [Libpostal_setup, Setup_language_classifier, Setup_parser])"
proof -
  have all: "(\<forall>c. init c) \<longleftrightarrow> init Libpostal_setup \<and> init Setup_language_classifier \<and> init Setup_parser"
    by (metis init_call.exhaust)
  show ?thesis
    unfolding all [symmetric, unfolded not_all [symmetric]]
    by (auto simp: setup_libpostal_def all)
qed

theorem setup_raises_iff_some_init_fails_witness:
  "snd (setup_libpostal (\<lambda>c. True)) = Inr ()
   \<and> fst (setup_libpostal (\<lambda>c. True)) = [Libpostal_setup, Setup_language_classifier, Setup_parser]
   \<and> snd (setup_libpostal (\<lambda>c. c \<noteq> Setup_language_classifier)) = Inl SetupFailed
   \<and> (\<exists>c \<in> set (fst (setup_libpostal (\<lambda>c. c \<noteq> Setup_language_classifier))).
         \<not> c \<noteq> Setup_language_classifier)"
  using setup_raises_iff_some_init_fails [of "\<lambda>c. True"]
    setup_raises_iff_some_init_fails [of "\<lambda>c. c \<noteq> Setup_language_classifier"]
  by (simp add: setup_libpostal_def)

text \<open>
  Claim C7. With a single new value that is the missing-value sentinel,
  \<open>set_elements\<close> returns the addresses as they are and calls the engine for no
  element, whatever the batch, the field index and the start of the counter.
\<close>

theorem set_elements_single_na_identity:
  "set_elements e i0 addresses [None] element = ([], Inr addresses)"
  by (simp add: set_elements_def)

section \<open>The batch normaliser\<close>

lemma normalise_step_inv:
  assumes "j < length xs"
    and "fst t = filter (\<lambda>k. xs ! k \<noteq> None) [0..<j]"
    and "length (snd t) = length xs"
    and "\<forall>k<j. snd t ! k =
           (case xs ! k of None \<Rightarrow> None
            | Some a \<Rightarrow> (case expand_address e a of [] \<Rightarrow> Some a | x # _ \<Rightarrow> Some x))"
  shows "fst (normalise_step e xs j t) = filter (\<lambda>k. xs ! k \<noteq> None) [0..<Suc j]
    \<and> length (snd (normalise_step e xs j t)) = length xs
    \<and> (\<forall>k<Suc j. snd (normalise_step e xs j t) ! k =
           (case xs ! k of None \<Rightarrow> None
            | Some a \<Rightarrow> (case expand_address e a of [] \<Rightarrow> Some a | x # _ \<Rightarrow> Some x)))"
proof (cases "xs ! j")
  case None
  then show ?thesis
    using assms by (simp add: normalise_step_def Let_def nth_list_update less_Suc_eq)
next
  case (Some a)
  show ?thesis
  proof (cases "expand_address e a")
    case Nil
    then show ?thesis
      using assms Some by (simp add: normalise_step_def Let_def nth_list_update less_Suc_eq)
  next
    case (Cons x rest)
    then show ?thesis
      using assms Some by (simp add: normalise_step_def Let_def nth_list_update less_Suc_eq)
  qed
qed

lemma address_normalise_run:
  "fst (address_normalise e xs) = filter (\<lambda>k. xs ! k \<noteq> None) [0..<length xs]
   \<and> length (snd (address_normalise e xs)) = length xs
   \<and> (\<forall>k<length xs. snd (address_normalise e xs) ! k =
         (case xs ! k of None \<Rightarrow> None
          | Some a \<Rightarrow> (case expand_address e a of [] \<Rightarrow> Some a | x # _ \<Rightarrow> Some x)))"
proof -
  let ?P = "\<lambda>j t. fst t = filter (\<lambda>k. xs ! k \<noteq> None) [0..<j]
    \<and> length (snd t) = length xs
    \<and> (\<forall>k<j. snd t ! k =
           (case xs ! k of None \<Rightarrow> None
            | Some a \<Rightarrow> (case expand_address e a of [] \<Rightarrow> Some a | x # _ \<Rightarrow> Some x)))"
  have "?P (length xs) (for_loop (normalise_step e xs) 0 (length xs) ([], replicate (length xs) (Some '''')))"
  proof (rule for_loop_rule [where P = ?P])
    show "?P 0 ([], replicate (length xs) (Some ''''))" by simp
  next
    fix j t
    assume "0 \<le> j" "j < length xs" "?P j t"
    then show "?P (Suc j) (normalise_step e xs j t)"
      using normalise_step_inv [of j xs t e] by blast
  next
    show "0 \<le> length xs" by simp
  qed
  then show ?thesis
    by (simp add: address_normalise_def Let_def)
qed

text \<open>
  Claim C1. For every batch and every position \<open>i\<close> that holds an address,
  the output of \<open>address_normalise\<close> at \<open>i\<close> is the first expansion the engine
  returns for that address, and the address itself when the engine returns none.
\<close>

theorem address_normalise_first_expansion:
  assumes "i < length addresses" and "addresses ! i = Some a"
  shows "snd (address_normalise e addresses) ! i =
    (case expand_address e a of [] \<Rightarrow> Some a | x # _ \<Rightarrow> Some x)"
  using address_normalise_run [of e addresses] assms by simp

theorem address_normalise_first_expansion_witness:
  "(0::nat) < length [Some ''12 bar rd'', None, Some ''zz'']
   \<and> [Some ''12 bar rd'', None, Some ''zz''] ! 0 = Some ''12 bar rd''
   \<and> snd (address_normalise example_engine [Some ''12 bar rd'', None, Some ''zz'']) ! 0 = Some ''12 bar road''
   \<and> (2::nat) < length [Some ''12 bar rd'', None, Some ''zz'']
   \<and> [Some ''12 bar rd'', None, Some ''zz''] ! 2 = Some ''zz''
   \<and> snd (address_normalise example_engine [Some ''12 bar rd'', None, Some ''zz'']) ! 2 = Some ''zz''"
  using address_normalise_first_expansion [of 0 "[Some ''12 bar rd'', None, Some ''zz'']" "''12 bar rd''" example_engine]
    address_normalise_first_expansion [of 2 "[Some ''12 bar rd'', None, Some ''zz'']" "''zz''" example_engine]
  by (simp add: example_engine_def)

section \<open>The batch parser\<close>

lemma data_frame_names: "map fst (data_frame c) = field_names"
  by (simp add: data_frame_def field_names_def)

lemma length_data_frame: "length (data_frame c) = 10"
  by (simp add: data_frame_def)

lemma parse_step_calls:
  "fst (parse_step e xs j t) = (case xs ! j of None \<Rightarrow> fst t | Some a \<Rightarrow> fst t @ [j])"
  by (simp add: parse_step_def Let_def split: option.splits)

lemma parse_step_column:
  assumes "m < 10"
  shows "snd (data_frame (snd (parse_step e xs j t)) ! m) =
    (case xs ! j of None \<Rightarrow> snd (data_frame (snd t) ! m)
     | Some a \<Rightarrow> (snd (data_frame (snd t) ! m))[j := parse_single e a ! m])"
  using less_ten_cases [OF assms]
  by (elim disjE) (simp_all add: parse_step_def data_frame_def Let_def split: option.splits)

lemma na_columns_column:
  assumes "m < 10"
  shows "snd (data_frame (na_columns n) ! m) = replicate n None"
  using less_ten_cases [OF assms]
  by (elim disjE) (simp_all add: na_columns_def data_frame_def)

lemma parse_step_inv:
  assumes "j < length xs" and "i0 \<le> j"
    and "fst t = filter (\<lambda>k. xs ! k \<noteq> None) [i0..<j]"
    and "\<forall>m<10. length (snd (data_frame (snd t) ! m)) = length xs
           \<and> (\<forall>k<length xs. snd (data_frame (snd t) ! m) ! k =
                 (if i0 \<le> k \<and> k < j
                  then (case xs ! k of None \<Rightarrow> None | Some a \<Rightarrow> parse_single e a ! m)
                  else None))"
  shows "fst (parse_step e xs j t) = filter (\<lambda>k. xs ! k \<noteq> None) [i0..<Suc j]
    \<and> (\<forall>m<10. length (snd (data_frame (snd (parse_step e xs j t)) ! m)) = length xs
           \<and> (\<forall>k<length xs. snd (data_frame (snd (parse_step e xs j t)) ! m) ! k =
                 (if i0 \<le> k \<and> k < Suc j
                  then (case xs ! k of None \<Rightarrow> None | Some a \<Rightarrow> parse_single e a ! m)
                  else None)))"
proof (intro conjI allI impI)
  show "fst (parse_step e xs j t) = filter (\<lambda>k. xs ! k \<noteq> None) [i0..<Suc j]"
    using assms(2,3) by (simp add: parse_step_calls split: option.splits)
next
  fix m :: nat assume m: "m < 10"
  show "length (snd (data_frame (snd (parse_step e xs j t)) ! m)) = length xs"
    using assms(4) m by (simp add: parse_step_column split: option.splits)
next
  fix m k :: nat assume m: "m < 10" and k: "k < length xs"
  have len: "length (snd (data_frame (snd t) ! m)) = length xs"
    using assms(4) m by simp
  have old: "snd (data_frame (snd t) ! m) ! k =
                 (if i0 \<le> k \<and> k < j
                  then (case xs ! k of None \<Rightarrow> None | Some a \<Rightarrow> parse_single e a ! m)
                  else None)"
    using assms(4) m k by simp
  show "snd (data_frame (snd (parse_step e xs j t)) ! m) ! k =
                 (if i0 \<le> k \<and> k < Suc j
                  then (case xs ! k of None \<Rightarrow> None | Some a \<Rightarrow> parse_single e a ! m)
                  else None)"
  proof (cases "k = j")
    case True
    then show ?thesis
      using assms(1,2) len old
      by (simp add: parse_step_column [OF m] split: option.splits)
  next
    case False
    then show ?thesis
      using len old k
      by (simp add: parse_step_column [OF m] less_Suc_eq split: option.splits)
  qed
qed

lemma parse_addr_run:
  "fst (parse_addr e i0 xs) = filter (\<lambda>k. xs ! k \<noteq> None) [i0..<length xs]
   \<and> map fst (snd (parse_addr e i0 xs)) = field_names
   \<and> (\<forall>m<10. length (snd (snd (parse_addr e i0 xs) ! m)) = length xs
         \<and> (\<forall>k<length xs. snd (snd (parse_addr e i0 xs) ! m) ! k =
               (if i0 \<le> k
                then (case xs ! k of None \<Rightarrow> None | Some a \<Rightarrow> parse_single e a ! m)
                else None)))"
proof -
  let ?P = "\<lambda>j t. fst t = filter (\<lambda>k. xs ! k \<noteq> None) [i0..<j]
    \<and> (\<forall>m<10. length (snd (data_frame (snd t) ! m)) = length xs
           \<and> (\<forall>k<length xs. snd (data_frame (snd t) ! m) ! k =
                 (if i0 \<le> k \<and> k < j
                  then (case xs ! k of None \<Rightarrow> None | Some a \<Rightarrow> parse_single e a ! m)
                  else None)))"
  let ?s = "for_loop (parse_step e xs) i0 (length xs) ([], na_columns (length xs))"
  have "?P (length xs) ?s"
  proof (cases "i0 \<le> length xs")
    case True
    show ?thesis
    proof (rule for_loop_rule [where P = ?P])
      show "?P i0 ([], na_columns (length xs))"
        by (auto simp: na_columns_column)
    next
      fix j t
      assume "i0 \<le> j" "j < length xs" "?P j t"
      then show "?P (Suc j) (parse_step e xs j t)"
        using parse_step_inv [of j xs i0 t e] by blast
    next
      show "i0 \<le> length xs" by (rule True)
    qed
  next
    case False
    then have "?s = ([], na_columns (length xs))"
      by (simp add: for_loop_skip)
    then show ?thesis
      using False by (simp add: na_columns_column)
  qed
  then show ?thesis
    by (simp add: parse_addr_def Let_def data_frame_names)
qed

section \<open>Loops that write one output position per iteration\<close>

lemma elementwise_inv:
  assumes body: "\<And>j t. j < n \<Longrightarrow> body j t =
        (if called j then fst t @ [j] else fst t,
         case val j of Inl err \<Rightarrow> Inl err | Inr v \<Rightarrow> Inr ((snd t)[j := v]))"
    and "i0 \<le> j" and "j < n"
    and inv: "fst t = filter called [i0..<j] \<and> length (snd t) = n
      \<and> (\<forall>k<n. if i0 \<le> k \<and> k < j then val k = Inr (snd t ! k) else snd t ! k = fill)"
    and step: "body j t = (calls', Inr out')"
  shows "fst (calls', out') = filter called [i0..<Suc j] \<and> length (snd (calls', out')) = n
      \<and> (\<forall>k<n. if i0 \<le> k \<and> k < Suc j then val k = Inr (snd (calls', out') ! k)
                else snd (calls', out') ! k = fill)"
proof -
  from step body [OF assms(3), of t] obtain v where
    v: "val j = Inr v" and o: "out' = (snd t)[j := v]"
    and c: "calls' = (if called j then fst t @ [j] else fst t)"
    by (cases "val j") auto
  have "calls' = filter called [i0..<Suc j]"
    using c inv assms(2) by simp
  moreover have "length out' = n"
    using o inv by simp
  moreover have "\<forall>k<n. if i0 \<le> k \<and> k < Suc j then val k = Inr (out' ! k) else out' ! k = fill"
  proof (intro allI impI)
    fix k assume k: "k < n"
    show "if i0 \<le> k \<and> k < Suc j then val k = Inr (out' ! k) else out' ! k = fill"
    proof (cases "k = j")
      case True
      then show ?thesis
        using v o inv assms(2,3) by simp
    next
      case False
      then show ?thesis
        using o inv k by (simp add: less_Suc_eq)
    qed
  qed
  ultimately show ?thesis by simp
qed

lemma elementwise_loop_Inr:
  assumes body: "\<And>j t. j < n \<Longrightarrow> body j t =
        (if called j then fst t @ [j] else fst t,
         case val j of Inl err \<Rightarrow> Inl err | Inr v \<Rightarrow> Inr ((snd t)[j := v]))"
    and run: "for_loop_exn body i0 n ([], replicate n fill) = (calls, Inr out)"
  shows "calls = filter called [i0..<n] \<and> length out = n
      \<and> (\<forall>k<n. if i0 \<le> k then val k = Inr (out ! k) else out ! k = fill)"
proof (cases "i0 \<le> n")
  case True
  let ?P = "\<lambda>j t. fst t = filter called [i0..<j] \<and> length (snd t) = n
      \<and> (\<forall>k<n. if i0 \<le> k \<and> k < j then val k = Inr (snd t ! k) else snd t ! k = fill)"
  have "?P n (calls, out)"
  proof (rule for_loop_exn_rule [where P = ?P, OF run])
    show "?P i0 ([], replicate n fill)" by auto
  next
    fix j t calls' out'
    assume a: "i0 \<le> j" "j < n" "?P j t" "body j t = (calls', Inr out')"
    show "?P (Suc j) (calls', out')"
      using elementwise_inv [of n body called val i0 j t fill calls' out', OF body a] .
  next
    show "i0 \<le> n" by (rule True)
  qed
  then show ?thesis by auto
next
  case False
  then have "for_loop_exn body i0 n ([], replicate n fill) = ([], Inr (replicate n fill))"
    by (simp add: for_loop_exn_skip)
  then show ?thesis
    using run False by auto
qed

lemma elementwise_loop_Inl:
  assumes body: "\<And>j t. j < n \<Longrightarrow> body j t =
        (if called j then fst t @ [j] else fst t,
         case val j of Inl err \<Rightarrow> Inl err | Inr v \<Rightarrow> Inr ((snd t)[j := v]))"
    and run: "for_loop_exn body i0 n ([], replicate n fill) = (calls, Inl err)"
  shows "\<exists>j. i0 \<le> j \<and> j < n \<and> val j = Inl err \<and> calls = filter called [i0..<Suc j]"
proof -
  let ?P = "\<lambda>j t. fst t = filter called [i0..<j] \<and> length (snd t) = n
      \<and> (\<forall>k<n. if i0 \<le> k \<and> k < j then val k = Inr (snd t ! k) else snd t ! k = fill)"
  have "\<exists>j t. i0 \<le> j \<and> j < n \<and> ?P j t \<and> body j t = (calls, Inl err)"
  proof (rule for_loop_exn_error [where P = ?P, OF run])
    show "?P i0 ([], replicate n fill)" by auto
  next
    fix j t calls' out'
    assume a: "i0 \<le> j" "j < n" "?P j t" "body j t = (calls', Inr out')"
    show "?P (Suc j) (calls', out')"
      using elementwise_inv [of n body called val i0 j t fill calls' out', OF body a] .
  qed
  then obtain j t where j: "i0 \<le> j" "j < n" "fst t = filter called [i0..<j]"
    and b: "body j t = (calls, Inl err)"
    by auto
  from b body [OF j(2), of t] have "val j = Inl err" and "calls = (if called j then fst t @ [j] else fst t)"
    by (cases "val j"; simp)+
  then have "val j = Inl err \<and> calls = filter called [i0..<Suc j]"
    using j by simp
  then show ?thesis
    using j(1,2) by blast
qed

section \<open>The loops of get_elements and set_elements\<close>

lemma get_step_shape:
  "get_step e xs el j t =
     (if xs ! j \<noteq> None then fst t @ [j] else fst t,
      case (case xs ! j of None \<Rightarrow> Inr None | Some a \<Rightarrow> slot (parse_single e a) el) of
        Inl err \<Rightarrow> Inl err | Inr v \<Rightarrow> Inr ((snd t)[j := v]))"
  by (simp add: get_step_def Let_def split: option.splits sum.splits)

lemma set_step_single_shape:
  "set_step_single e xs nv el j t =
     (if xs ! j \<noteq> None then fst t @ [j] else fst t,
      case (case xs ! j of None \<Rightarrow> Inr None | Some a \<Rightarrow> replace_field e a el nv) of
        Inl err \<Rightarrow> Inl err | Inr v \<Rightarrow> Inr ((snd t)[j := v]))"
  by (simp add: set_step_single_def Let_def split: option.splits sum.splits)

lemma set_step_each_shape:
  "set_step_each e xs nvs el j t =
     (if xs ! j \<noteq> None \<and> nvs ! j \<noteq> None then fst t @ [j] else fst t,
      case (case xs ! j of None \<Rightarrow> Inr None
            | Some a \<Rightarrow> (case nvs ! j of None \<Rightarrow> Inr (Some a) | Some nv \<Rightarrow> replace_field e a el nv)) of
        Inl err \<Rightarrow> Inl err | Inr v \<Rightarrow> Inr ((snd t)[j := v]))"
  by (simp add: set_step_each_def Let_def split: option.splits sum.splits)

lemma get_elements_Inr:
  assumes "get_elements e i0 xs el = (calls, Inr out)"
  shows "calls = filter (\<lambda>k. xs ! k \<noteq> None) [i0..<length xs] \<and> length out = length xs
    \<and> (\<forall>k<length xs.
          if i0 \<le> k
          then (case xs ! k of None \<Rightarrow> Inr None | Some a \<Rightarrow> slot (parse_single e a) el) = Inr (out ! k)
          else out ! k = Some '''')"
  by (rule elementwise_loop_Inr [where body = "get_step e xs el" and fill = "Some ''''"])
    (use assms in \<open>simp_all add: get_step_shape get_elements_def Let_def\<close>)

lemma get_elements_Inl:
  assumes "get_elements e i0 xs el = (calls, Inl err)"
  shows "\<exists>j. i0 \<le> j \<and> j < length xs
    \<and> (case xs ! j of None \<Rightarrow> Inr None | Some a \<Rightarrow> slot (parse_single e a) el) = Inl err
    \<and> calls = filter (\<lambda>k. xs ! k \<noteq> None) [i0..<Suc j]"
  by (rule elementwise_loop_Inl [where body = "get_step e xs el" and fill = "Some ''''"])
    (use assms in \<open>simp_all add: get_step_shape get_elements_def Let_def\<close>)

lemma set_single_Inr:
  assumes "for_loop_exn (set_step_single e xs nv el) i0 (length xs) ([], replicate (length xs) (Some '''')) = (calls, Inr out)"
  shows "calls = filter (\<lambda>k. xs ! k \<noteq> None) [i0..<length xs] \<and> length out = length xs
    \<and> (\<forall>k<length xs.
          if i0 \<le> k
          then (case xs ! k of None \<Rightarrow> Inr None | Some a \<Rightarrow> replace_field e a el nv) = Inr (out ! k)
          else out ! k = Some '''')"
  by (rule elementwise_loop_Inr [where body = "set_step_single e xs nv el" and fill = "Some ''''"])
    (use assms in \<open>simp_all add: set_step_single_shape\<close>)

lemma set_single_Inl:
  assumes "for_loop_exn (set_step_single e xs nv el) i0 (length xs) ([], replicate (length xs) (Some '''')) = (calls, Inl err)"
  shows "\<exists>j. i0 \<le> j \<and> j < length xs
    \<and> (case xs ! j of None \<Rightarrow> Inr None | Some a \<Rightarrow> replace_field e a el nv) = Inl err
    \<and> calls = filter (\<lambda>k. xs ! k \<noteq> None) [i0..<Suc j]"
  by (rule elementwise_loop_Inl [where body = "set_step_single e xs nv el" and fill = "Some ''''"])
    (use assms in \<open>simp_all add: set_step_single_shape\<close>)

lemma set_each_Inr:
  assumes "for_loop_exn (set_step_each e xs nvs el) i0 (length xs) ([], replicate (length xs) (Some '''')) = (calls, Inr out)"
  shows "calls = filter (\<lambda>k. xs ! k \<noteq> None \<and> nvs ! k \<noteq> None) [i0..<length xs] \<and> length out = length xs
    \<and> (\<forall>k<length xs.
          if i0 \<le> k
          then (case xs ! k of None \<Rightarrow> Inr None
                | Some a \<Rightarrow> (case nvs ! k of None \<Rightarrow> Inr (Some a) | Some nv \<Rightarrow> replace_field e a el nv))
               = Inr (out ! k)
          else out ! k = Some '''')"
  by (rule elementwise_loop_Inr [where body = "set_step_each e xs nvs el" and fill = "Some ''''"])
    (use assms in \<open>simp_all add: set_step_each_shape\<close>)

lemma set_each_Inl:
  assumes "for_loop_exn (set_step_each e xs nvs el) i0 (length xs) ([], replicate (length xs) (Some '''')) = (calls, Inl err)"
  shows "\<exists>j. i0 \<le> j \<and> j < length xs
    \<and> (case xs ! j of None \<Rightarrow> Inr None
        | Some a \<Rightarrow> (case nvs ! j of None \<Rightarrow> Inr (Some a) | Some nv \<Rightarrow> replace_field e a el nv))
       = Inl err
    \<and> calls = filter (\<lambda>k. xs ! k \<noteq> None \<and> nvs ! k \<noteq> None) [i0..<Suc j]"
  by (rule elementwise_loop_Inl [where body = "set_step_each e xs nvs el" and fill = "Some ''''"])
    (use assms in \<open>simp_all add: set_step_each_shape\<close>)

section \<open>Errors of set_elements\<close>


lemma slot_error: "slot holding element = Inl err \<Longrightarrow> err = SlotOutOfBounds"
  by (simp add: slot_def split: if_splits)

lemma string_replace_error: "string_replace s pos len str = Inl err \<Longrightarrow> err = ReplaceOutOfRange"
  by (simp add: string_replace_def split: option.splits if_splits)

lemma replace_field_error:
  "replace_field e a element nv = Inl err \<Longrightarrow> err = ReplaceOutOfRange \<or> err = SlotOutOfBounds"
  by (auto simp: replace_field_def Let_def split: sum.splits option.splits
      dest: slot_error string_replace_error)


lemma set_elements_unfold:
  "set_elements e i0 xs nvs el =
     (if length nvs = 1
      then (case nvs ! 0 of
              None \<Rightarrow> ([], Inr xs)
            | Some nv \<Rightarrow> for_loop_exn (set_step_single e xs nv el) i0 (length xs)
                ([], replicate (length xs) (Some '''')))
      else if length nvs = length xs
      then for_loop_exn (set_step_each e xs nvs el) i0 (length xs)
             ([], replicate (length xs) (Some ''''))
      else ([], Inl LengthMismatch))"
  by (simp add: set_elements_def Let_def)

lemma set_elements_error:
  assumes "set_elements e i0 xs nvs el = (calls, Inl err)"
  shows "(err = LengthMismatch \<and> calls = [] \<and> length nvs \<noteq> 1 \<and> length nvs \<noteq> length xs)
    \<or> ((length nvs = 1 \<or> length nvs = length xs)
        \<and> (\<exists>j a nv. i0 \<le> j \<and> j < length xs \<and> xs ! j = Some a
              \<and> replace_field e a el nv = Inl err))"
proof (cases "length nvs = 1")
  case True
  show ?thesis
  proof (cases "nvs ! 0")
    case None
    then show ?thesis
      using assms True by (simp add: set_elements_unfold)
  next
    case (Some nv)
    then have "for_loop_exn (set_step_single e xs nv el) i0 (length xs)
        ([], replicate (length xs) (Some '''')) = (calls, Inl err)"
      using assms True by (simp add: set_elements_unfold)
    from set_single_Inl [OF this] obtain j where
      j: "i0 \<le> j" "j < length xs"
        "(case xs ! j of None \<Rightarrow> Inr None | Some a \<Rightarrow> replace_field e a el nv) = Inl err"
      by blast
    then obtain a where "xs ! j = Some a" "replace_field e a el nv = Inl err"
      by (cases "xs ! j") simp_all
    then show ?thesis
      using True j(1,2) by blast
  qed
next
  case False
  show ?thesis
  proof (cases "length nvs = length xs")
    case True
    then have "for_loop_exn (set_step_each e xs nvs el) i0 (length xs)
        ([], replicate (length xs) (Some '''')) = (calls, Inl err)"
      using assms False by (simp add: set_elements_unfold)
    from set_each_Inl [OF this] obtain j where
      j: "i0 \<le> j" "j < length xs"
        "(case xs ! j of None \<Rightarrow> Inr None
          | Some a \<Rightarrow> (case nvs ! j of None \<Rightarrow> Inr (Some a) | Some nv \<Rightarrow> replace_field e a el nv))
         = Inl err"
      by blast
    then obtain a nv where "xs ! j = Some a" "replace_field e a el nv = Inl err"
      by (cases "xs ! j"; cases "nvs ! j") simp_all
    then show ?thesis
      using True j(1,2) by blast
  next
    case F2: False
    then show ?thesis
      using assms False by (simp add: set_elements_unfold)
  qed
qed

text \<open>
  Claim C6. \<open>set_elements\<close> ends with the length error exactly when the number of
  new values is neither 1 nor the number of addresses, and then it has called the
  engine for no element and has produced no output.
\<close>

theorem set_elements_length_mismatch:
  "(snd (set_elements e i0 addresses new_value element) = Inl LengthMismatch
      \<longleftrightarrow> length new_value \<noteq> 1 \<and> length new_value \<noteq> length addresses)
   \<and> (length new_value \<noteq> 1 \<and> length new_value \<noteq> length addresses
      \<longrightarrow> set_elements e i0 addresses new_value element = ([], Inl LengthMismatch))"
proof -
  have a: "set_elements e i0 addresses new_value element = ([], Inl LengthMismatch)"
    if "length new_value \<noteq> 1 \<and> length new_value \<noteq> length addresses"
    using that by (simp add: set_elements_unfold)
  have no: "replace_field e a element nv \<noteq> Inl LengthMismatch" for a nv
  proof
    assume "replace_field e a element nv = Inl LengthMismatch"
    from replace_field_error [OF this] show False by simp
  qed
  have b: "length new_value \<noteq> 1 \<and> length new_value \<noteq> length addresses"
    if "snd (set_elements e i0 addresses new_value element) = Inl LengthMismatch"
  proof -
    have "set_elements e i0 addresses new_value element
        = (fst (set_elements e i0 addresses new_value element), Inl LengthMismatch)"
      using that by (simp add: prod_eq_iff)
    from set_elements_error [OF this] no show ?thesis
      by blast
  qed
  have c1: "snd (set_elements e i0 addresses new_value element) = Inl LengthMismatch
      \<longleftrightarrow> length new_value \<noteq> 1 \<and> length new_value \<noteq> length addresses"
  proof (rule iffI)
    assume "snd (set_elements e i0 addresses new_value element) = Inl LengthMismatch"
    then show "length new_value \<noteq> 1 \<and> length new_value \<noteq> length addresses"
      by (rule b)
  next
    assume "length new_value \<noteq> 1 \<and> length new_value \<noteq> length addresses"
    then show "snd (set_elements e i0 addresses new_value element) = Inl LengthMismatch"
      by (simp add: a)
  qed
  have c2: "length new_value \<noteq> 1 \<and> length new_value \<noteq> length addresses
      \<longrightarrow> set_elements e i0 addresses new_value element = ([], Inl LengthMismatch)"
    by (rule impI) (rule a)
  show ?thesis
    using c1 c2 by (rule conjI)
qed

theorem set_elements_length_mismatch_witness:
  "length [Some ''x'', None] \<noteq> 1 \<and> length [Some ''x'', None] \<noteq> length [Some ''12 bar rd'', None, None]
   \<and> set_elements example_engine 0 [Some ''12 bar rd'', None, None] [Some ''x'', None] 2
       = ([], Inl LengthMismatch)
   \<and> length [Some ''main st''] = 1
   \<and> snd (set_elements example_engine 0 [Some ''12 bar rd'', None, None] [Some ''main st''] 2)
       \<noteq> Inl LengthMismatch"
proof -
  have m: "set_elements example_engine 0 [Some ''12 bar rd'', None, None] [Some ''x'', None] 2
       = ([], Inl LengthMismatch)"
    by (rule set_elements_length_mismatch [THEN conjunct2, THEN mp]) simp
  have "snd (set_elements example_engine 0 [Some ''12 bar rd'', None, None] [Some ''main st''] 2)
       = Inl LengthMismatch \<longleftrightarrow> False"
    using set_elements_length_mismatch
      [of example_engine 0 "[Some ''12 bar rd'', None, None]" "[Some ''main st'']" 2, THEN conjunct1]
    by simp
  then show ?thesis
    using m by simp
qed

section \<open>The order of the columns\<close>

lemma find_unique_label:
  assumes "distinct (map fst ps)"
  shows "find (\<lambda>p. fst p = l) ps = Some p \<longleftrightarrow> p \<in> set ps \<and> fst p = l"
  using assms
proof (induction ps)
  case Nil
  show ?case by simp
next
  case (Cons q ps)
  then show ?case by (auto simp: image_iff)
qed

lemma find_label_set:
  assumes "distinct (map fst ps)" and "distinct (map fst qs)" and "set ps = set qs"
  shows "find (\<lambda>p. fst p = l) ps = find (\<lambda>p. fst p = l) qs"
proof (cases "find (\<lambda>p. fst p = l) ps")
  case None
  then have "\<forall>p\<in>set qs. fst p \<noteq> l"
    using assms(3) by (auto simp: find_None_iff)
  then have "find (\<lambda>p. fst p = l) qs = None"
    by (auto simp: find_None_iff)
  then show ?thesis using None by simp
next
  case (Some p)
  then have "p \<in> set qs \<and> fst p = l"
    using find_unique_label [OF assms(1)] assms(3) by simp
  then have "find (\<lambda>p. fst p = l) qs = Some p"
    using find_unique_label [OF assms(2)] by simp
  then show ?thesis using Some by simp
qed

lemma parse_single_order_independent:
  assumes "distinct (map fst (parse_address e a))"
    and "distinct (map fst (parse_address e' a))"
    and "set (parse_address e a) = set (parse_address e' a)"
  shows "parse_single e a = parse_single e' a"
proof (rule nth_equalityI)
  show "length (parse_single e a) = length (parse_single e' a)"
    by (simp add: length_parse_single)
next
  fix k assume "k < length (parse_single e a)"
  then have k: "k < 10" by (simp add: length_parse_single)
  have "find (\<lambda>p. fst p = field_names ! k) (rev (parse_address e a))
      = find (\<lambda>p. fst p = field_names ! k) (rev (parse_address e' a))"
    by (rule find_label_set) (simp_all add: assms rev_map [symmetric])
  then show "parse_single e a ! k = parse_single e' a ! k"
    using k by (simp add: parse_single_def foldl_store_nth)
qed

text \<open>
  Claim C9. Whatever the engine, the batch and the start of the counter, the
  columns of the data frame are named house, house_number, road, suburb,
  city_district, city, state_district, state, postal_code, country, in this order.
  The column in place \<open>m\<close> holds slot \<open>m\<close> of the record of each address the loop
  parses, and that record does not depend on the order in which the engine emits
  pairs with distinct labels.
\<close>

theorem parse_addr_column_order:
  "map fst (snd (parse_addr e i0 addresses)) =
     [''house'', ''house_number'', ''road'', ''suburb'', ''city_district'',
      ''city'', ''state_district'', ''state'', ''postal_code'', ''country'']
   \<and> (\<forall>m<10. \<forall>k<length addresses. i0 \<le> k \<longrightarrow>
         snd (snd (parse_addr e i0 addresses) ! m) ! k =
           (case addresses ! k of None \<Rightarrow> None | Some a \<Rightarrow> parse_single e a ! m))
   \<and> (\<forall>e'::engine. \<forall>a.
         distinct (map fst (parse_address e a)) \<and> distinct (map fst (parse_address e' a))
           \<and> set (parse_address e' a) = set (parse_address e a)
         \<longrightarrow> parse_single e' a = parse_single e a)"
proof (intro conjI allI impI)
  show "map fst (snd (parse_addr e i0 addresses)) =
     [''house'', ''house_number'', ''road'', ''suburb'', ''city_district'',
      ''city'', ''state_district'', ''state'', ''postal_code'', ''country'']"
    using parse_addr_run [of e i0 addresses] by (simp add: field_names_def)
next
  fix m k :: nat assume "m < 10" "k < length addresses" "i0 \<le> k"
  then show "snd (snd (parse_addr e i0 addresses) ! m) ! k =
           (case addresses ! k of None \<Rightarrow> None | Some a \<Rightarrow> parse_single e a ! m)"
    using parse_addr_run [of e i0 addresses] by simp
next
  fix e' :: engine and a
  assume "distinct (map fst (parse_address e a)) \<and> distinct (map fst (parse_address e' a))
           \<and> set (parse_address e' a) = set (parse_address e a)"
  then show "parse_single e' a = parse_single e a"
    by (simp add: parse_single_order_independent)
qed

theorem parse_addr_column_order_witness:
  "map fst (snd (parse_addr example_engine 0 [Some ''12 bar rd'', None])) =
     [''house'', ''house_number'', ''road'', ''suburb'', ''city_district'',
      ''city'', ''state_district'', ''state'', ''postal_code'', ''country'']
   \<and> (2::nat) < 10 \<and> (0::nat) < length [Some ''12 bar rd'', None] \<and> (0::nat) \<le> 0
   \<and> snd (snd (parse_addr example_engine 0 [Some ''12 bar rd'', None]) ! 2) ! 0 = Some ''bar rd''
   \<and> distinct (map fst (parse_address example_engine ''12 bar rd''))
   \<and> distinct (map fst (parse_address reversed_engine ''12 bar rd''))
   \<and> set (parse_address reversed_engine ''12 bar rd'') = set (parse_address example_engine ''12 bar rd'')
   \<and> parse_single reversed_engine ''12 bar rd'' = parse_single example_engine ''12 bar rd''"
proof -
  note t = parse_addr_column_order [of example_engine 0 "[Some ''12 bar rd'', None]"]
  have v: "parse_single example_engine ''12 bar rd'' ! 2 = Some ''bar rd''"
    by (simp add: parse_single_def example_engine_def store_component_def isna_def)
  have a: "snd (snd (parse_addr example_engine 0 [Some ''12 bar rd'', None]) ! 2) ! 0 = Some ''bar rd''"
    using t [THEN conjunct2, THEN conjunct1, rule_format, of 2 0] v by simp
  have d: "distinct (map fst (parse_address example_engine ''12 bar rd''))
      \<and> distinct (map fst (parse_address reversed_engine ''12 bar rd''))
      \<and> set (parse_address reversed_engine ''12 bar rd'') = set (parse_address example_engine ''12 bar rd'')"
    by (auto simp: example_engine_def reversed_engine_def)
  have c: "parse_single reversed_engine ''12 bar rd'' = parse_single example_engine ''12 bar rd''"
    by (rule t [THEN conjunct2, THEN conjunct2, THEN spec, THEN spec, THEN mp, OF d])
  show ?thesis
    using t [THEN conjunct1] a d c by simp
qed

section \<open>The field index\<close>






section \<open>The replacement in set_elements\<close>

lemma string_find_None_iff:
  "string_find s needle = None \<longleftrightarrow> (\<forall>p q. s \<noteq> p @ needle @ q)"
proof (induction s)
  case Nil
  show ?case by auto
next
  case (Cons c cs)
  show ?case
  proof (cases "take (length needle) (c # cs) = needle")
    case True
    have "c # cs = [] @ take (length needle) (c # cs) @ drop (length needle) (c # cs)"
      by simp
    then have "\<exists>p q. c # cs = p @ needle @ q"
      unfolding True by blast
    then show ?thesis
      using True by simp
  next
    case False
    have "(\<exists>p q. c # cs = p @ needle @ q) \<longleftrightarrow> (\<exists>p q. cs = p @ needle @ q)"
    proof
      assume "\<exists>p q. c # cs = p @ needle @ q"
      then obtain p q where pq: "c # cs = p @ needle @ q" by blast
      show "\<exists>p q. cs = p @ needle @ q"
      proof (cases p)
        case Nil
        then have "take (length needle) (c # cs) = needle"
          using pq by simp
        then show ?thesis using False by simp
      next
        case (Cons d p')
        then have "cs = p' @ needle @ q" using pq by simp
        then show ?thesis by blast
      qed
    next
      assume "\<exists>p q. cs = p @ needle @ q"
      then obtain p q where "cs = p @ needle @ q" by blast
      then have "c # cs = (c # p) @ needle @ q" by simp
      then show "\<exists>p q. c # cs = p @ needle @ q" by blast
    qed
    then have "(\<forall>p q. c # cs \<noteq> p @ needle @ q) \<longleftrightarrow> (\<forall>p q. cs \<noteq> p @ needle @ q)"
      by blast
    then show ?thesis
      using False Cons.IH by simp
  qed
qed

lemma string_find_Some:
  "string_find s needle = Some p \<Longrightarrow> take (length needle) (drop p s) = needle \<and> p \<le> length s"
proof (induction s arbitrary: p)
  case Nil
  then show ?case by (simp split: if_splits)
next
  case (Cons c cs)
  show ?case
  proof (cases "take (length needle) (c # cs) = needle")
    case True
    then show ?thesis using Cons.prems by simp
  next
    case False
    then obtain p' where "string_find cs needle = Some p'" "p = Suc p'"
      using Cons.prems by auto
    then show ?thesis using Cons.IH by simp
  qed
qed

lemma string_find_first:
  "string_find s needle = Some p \<Longrightarrow> q < p \<Longrightarrow> take (length needle) (drop q s) \<noteq> needle"
proof (induction s arbitrary: p q)
  case Nil
  then show ?case by (simp split: if_splits)
next
  case (Cons c cs)
  show ?case
  proof (cases "take (length needle) (c # cs) = needle")
    case True
    then show ?thesis using Cons.prems by simp
  next
    case False
    then obtain p' where p': "string_find cs needle = Some p'" "p = Suc p'"
      using Cons.prems by auto
    show ?thesis
    proof (cases q)
      case 0
      then show ?thesis using False by simp
    next
      case (Suc q')
      then have "q' < p'" using Cons.prems(2) p'(2) by simp
      from Cons.IH [OF p'(1) this] show ?thesis using Suc by simp
    qed
  qed
qed

lemma replace_field_not_found:
  assumes "slot (parse_single e a) element = Inr (Some h)"
    and "\<forall>p q. a \<noteq> p @ h @ q"
  shows "replace_field e a element nv = Inl ReplaceOutOfRange"
proof -
  have "string_find a h = None"
    using assms(2) by (simp add: string_find_None_iff)
  then show ?thesis
    using assms(1) by (simp add: replace_field_def string_replace_def)
qed

lemma replace_field_found:
  assumes "slot (parse_single e a) element = Inr (Some h)"
    and "string_find a h = Some p"
  shows "replace_field e a element nv = Inr (Some (take p a @ nv @ drop (p + length h) a))"
proof -
  from string_find_Some [OF assms(2)] have t: "take (length h) (drop p a) = h" and p: "p \<le> length a"
    by simp_all
  have "length h \<le> length a - p"
  proof -
    have "length (take (length h) (drop p a)) = length h" using t by simp
    then show ?thesis by simp
  qed
  then have "min (length h) (length a - p) = length h" by simp
  then show ?thesis
    using assms p by (simp add: replace_field_def string_replace_def)
qed

text \<open>
  Claim C5. In the code, a parsed field value that does not occur in the address
  text makes the replacement raise: the loop ends with the error of
  \<^verbatim>\<open>std::string::replace\<close> and no output, both for a single new value and
  for one new value per address. The claim asks for the address to come back
  unchanged there. \<open>example_engine\<close> parses \<open>12 Bar Rd\<close> to the road
  \<open>bar rd\<close>, which is not a substring of it.
\<close>

theorem set_elements_not_found_raises:
  "set_elements example_engine 0 [Some ''12 Bar Rd''] [Some ''Main St''] 2
     = ([0], Inl ReplaceOutOfRange)
   \<and> set_elements example_engine 0 [Some ''12 Bar Rd'', None] [Some ''Main St'', None] 2
     = ([0], Inl ReplaceOutOfRange)"
  by (simp add: set_elements_def set_step_single_def set_step_each_def replace_field_def
      string_replace_def for_loop_exn.simps slot_def parse_single_def
      example_engine_def store_component_def isna_def Let_def)

section \<open>Outputs of set_elements and missing addresses\<close>

lemma set_elements_Inr:
  assumes "set_elements e i0 xs nvs el = (calls, Inr out)"
  shows "length out = length xs
    \<and> (if length nvs = 1 \<and> nvs ! 0 = None then out = xs \<and> calls = []
        else calls = filter (\<lambda>k. xs ! k \<noteq> None \<and> nvs ! (if length nvs = 1 then 0 else k) \<noteq> None)
                       [i0..<length xs]
          \<and> (\<forall>k<length xs.
                if i0 \<le> k
                then (case xs ! k of None \<Rightarrow> Inr None
                      | Some a \<Rightarrow>
                          (case nvs ! (if length nvs = 1 then 0 else k) of
                             None \<Rightarrow> Inr (Some a)
                           | Some nv \<Rightarrow> replace_field e a el nv))
                     = Inr (out ! k)
                else out ! k = Some ''''))"
proof (cases "length nvs = 1")
  case True
  show ?thesis
  proof (cases "nvs ! 0")
    case None
    then show ?thesis
      using assms True by (simp add: set_elements_unfold)
  next
    case (Some nv)
    then have "for_loop_exn (set_step_single e xs nv el) i0 (length xs)
        ([], replicate (length xs) (Some '''')) = (calls, Inr out)"
      using assms True by (simp add: set_elements_unfold)
    moreover have "nvs ! (if length nvs = 1 then 0 else k) = Some nv" for k
      using True Some by simp
    ultimately show ?thesis
      using set_single_Inr [of e xs nv el i0 calls out] True Some
      by (simp cong: option.case_cong)
  qed
next
  case False
  show ?thesis
  proof (cases "length nvs = length xs")
    case True
    then have "for_loop_exn (set_step_each e xs nvs el) i0 (length xs)
        ([], replicate (length xs) (Some '''')) = (calls, Inr out)"
      using assms False by (simp add: set_elements_unfold)
    from set_each_Inr [OF this] show ?thesis
      using False by simp
  next
    case F2: False
    then show ?thesis
      using assms False by (simp add: set_elements_unfold)
  qed
qed

lemma set_elements_Inl_calls:
  assumes "set_elements e i0 xs nvs el = (calls, Inl err)"
  shows "\<exists>j. calls = filter (\<lambda>k. xs ! k \<noteq> None \<and> nvs ! (if length nvs = 1 then 0 else k) \<noteq> None)
                       [i0..<j]"
proof (cases "length nvs = 1")
  case True
  show ?thesis
  proof (cases "nvs ! 0")
    case None
    then show ?thesis
      using assms True by (simp add: set_elements_unfold)
  next
    case (Some nv)
    then have "for_loop_exn (set_step_single e xs nv el) i0 (length xs)
        ([], replicate (length xs) (Some '''')) = (calls, Inl err)"
      using assms True by (simp add: set_elements_unfold)
    from set_single_Inl [OF this] obtain j where
      "calls = filter (\<lambda>k. xs ! k \<noteq> None) [i0..<Suc j]" by blast
    then have "calls = filter (\<lambda>k. xs ! k \<noteq> None \<and> nvs ! (if length nvs = 1 then 0 else k) \<noteq> None)
                       [i0..<Suc j]"
      using True Some by simp
    then show ?thesis by (rule exI)
  qed
next
  case False
  show ?thesis
  proof (cases "length nvs = length xs")
    case True
    then have "for_loop_exn (set_step_each e xs nvs el) i0 (length xs)
        ([], replicate (length xs) (Some '''')) = (calls, Inl err)"
      using assms False by (simp add: set_elements_unfold)
    from set_each_Inl [OF this] obtain j where
      "calls = filter (\<lambda>k. xs ! k \<noteq> None \<and> nvs ! k \<noteq> None) [i0..<Suc j]" by blast
    then have "calls = filter (\<lambda>k. xs ! k \<noteq> None \<and> nvs ! (if length nvs = 1 then 0 else k) \<noteq> None)
                       [i0..<Suc j]"
      using False by simp
    then show ?thesis by (rule exI)
  next
    case F2: False
    then have "calls = []"
      using assms False by (simp add: set_elements_unfold)
    then have "calls = filter (\<lambda>k. xs ! k \<noteq> None \<and> nvs ! (if length nvs = 1 then 0 else k) \<noteq> None)
                       [i0..<i0]"
      by simp
    then show ?thesis by (rule exI)
  qed
qed

text \<open>
  For a missing address no operation calls the engine, and the output is missing
  at every position the loop reaches (\<open>no_engine_call_for_missing\<close>,
  \<open>missing_value_reached\<close>).
\<close>

lemma filter_member: "calls = filter P l \<Longrightarrow> i \<in> set calls \<Longrightarrow> P i"
  by simp

lemma no_engine_call_for_missing:
  assumes "xs ! i = None"
  shows "i \<notin> set (fst (address_normalise e xs))"
    and "i \<notin> set (fst (parse_addr e i0 xs))"
    and "i \<notin> set (fst (get_elements e i0 xs el))"
    and "i \<notin> set (fst (set_elements e i0 xs nvs el))"
proof -
  show "i \<notin> set (fst (address_normalise e xs))"
    using address_normalise_run [of e xs] assms by simp
  show "i \<notin> set (fst (parse_addr e i0 xs))"
    using parse_addr_run [of e i0 xs] assms by simp
  show "i \<notin> set (fst (get_elements e i0 xs el))"
  proof (cases "get_elements e i0 xs el")
    case (Pair calls r)
    show ?thesis
    proof (cases r)
      case (Inl err)
      from get_elements_Inl [OF Pair [unfolded Inl]] obtain j where
        "calls = filter (\<lambda>k. xs ! k \<noteq> None) [i0..<Suc j]" by blast
      from filter_member [OF this, of i] show ?thesis
        using Pair assms by auto
    next
      case (Inr out)
      from get_elements_Inr [OF Pair [unfolded Inr], THEN conjunct1]
      have "calls = filter (\<lambda>k. xs ! k \<noteq> None) [i0..<length xs]" .
      from filter_member [OF this, of i] show ?thesis
        using Pair assms by auto
    qed
  qed
  show "i \<notin> set (fst (set_elements e i0 xs nvs el))"
  proof (cases "set_elements e i0 xs nvs el")
    case (Pair calls r)
    show ?thesis
    proof (cases r)
      case (Inl err)
      from set_elements_Inl_calls [OF Pair [unfolded Inl]] obtain j where
        "calls = filter (\<lambda>k. xs ! k \<noteq> None \<and> nvs ! (if length nvs = 1 then 0 else k) \<noteq> None)
                       [i0..<j]" by blast
      from filter_member [OF this, of i] show ?thesis
        using Pair assms by auto
    next
      case (Inr out)
      show ?thesis
      proof (cases "length nvs = 1 \<and> nvs ! 0 = None")
        case True
        then show ?thesis
          using set_elements_Inr [OF Pair [unfolded Inr]] Pair by simp
      next
        case False
        then have "calls = filter (\<lambda>k. xs ! k \<noteq> None \<and> nvs ! (if length nvs = 1 then 0 else k) \<noteq> None)
                       [i0..<length xs]"
          using set_elements_Inr [OF Pair [unfolded Inr]] by simp
        from filter_member [OF this, of i] show ?thesis
          using Pair assms by auto
      qed
    qed
  qed
qed

lemma missing_value_reached:
  assumes "i < length xs" and "xs ! i = None"
  shows "snd (address_normalise e xs) ! i = None"
    and "m < 10 \<Longrightarrow> snd (snd (parse_addr e i0 xs) ! m) ! i = None"
    and "snd (get_elements e i0 xs el) = Inr out \<Longrightarrow> i0 \<le> i \<Longrightarrow> out ! i = None"
    and "snd (set_elements e i0 xs nvs el) = Inr out' \<Longrightarrow> i0 \<le> i \<or> nvs = [None] \<Longrightarrow> out' ! i = None"
proof -
  show "snd (address_normalise e xs) ! i = None"
    using address_normalise_run [of e xs] assms by simp
  show "snd (snd (parse_addr e i0 xs) ! m) ! i = None" if "m < 10"
    using parse_addr_run [of e i0 xs] assms that by simp
  show "out ! i = None" if "snd (get_elements e i0 xs el) = Inr out" "i0 \<le> i"
  proof -
    have "get_elements e i0 xs el = (fst (get_elements e i0 xs el), Inr out)"
      using that(1) by (simp add: prod_eq_iff)
    from get_elements_Inr [OF this, THEN conjunct2, THEN conjunct2, rule_format, of i]
    show ?thesis using assms that(2) by simp
  qed
  show "out' ! i = None" if "snd (set_elements e i0 xs nvs el) = Inr out'" "i0 \<le> i \<or> nvs = [None]"
  proof -
    have s: "set_elements e i0 xs nvs el = (fst (set_elements e i0 xs nvs el), Inr out')"
      using that(1) by (simp add: prod_eq_iff)
    show ?thesis
    proof (cases "length nvs = 1 \<and> nvs ! 0 = None")
      case True
      then show ?thesis
        using set_elements_Inr [OF s] assms by simp
    next
      case False
      then have "nvs \<noteq> [None]" by auto
      then have i: "i0 \<le> i" using that(2) by simp
      from set_elements_Inr [OF s] False
      have "\<forall>k<length xs.
                if i0 \<le> k
                then (case xs ! k of None \<Rightarrow> Inr None
                      | Some a \<Rightarrow>
                          (case nvs ! (if length nvs = 1 then 0 else k) of
                             None \<Rightarrow> Inr (Some a)
                           | Some nv \<Rightarrow> replace_field e a el nv))
                     = Inr (out' ! k)
                else out' ! k = Some ''''"
        by simp
      from this [rule_format, of i] show ?thesis
        using assms i by simp
    qed
  qed
qed

section \<open>Missing addresses below the start of the counter\<close>

text \<open>
  Claim C3. The claim fails in \<open>get_elements\<close> and \<open>set_elements\<close> when the
  counter, which the code does not initialise, starts above a position that holds
  a missing address: the loop never reaches the position, and the output keeps the
  blank string of the freshly allocated vector there, which is not the
  missing-value sentinel. Here the counter starts at 1 and position 0 is missing.
\<close>

theorem missing_address_left_blank:
  "get_elements example_engine 1 [None, Some ''12 bar rd''] 2
     = ([1], Inr [Some '''', Some ''bar rd''])
   \<and> set_elements example_engine 1 [None, Some ''12 bar rd''] [Some ''main st''] 2
     = ([1], Inr [Some '''', Some ''12 main st''])
   \<and> set_elements example_engine 1 [None, Some ''12 bar rd''] [Some ''x'', Some ''main st''] 2
     = ([1], Inr [Some '''', Some ''12 main st''])"
  by (simp add: get_elements_def get_step_def set_elements_def set_step_single_def
      set_step_each_def replace_field_def string_replace_def for_loop_exn.simps slot_def
      parse_single_def example_engine_def store_component_def isna_def Let_def)

section \<open>Lengths and positions of the outputs\<close>

text \<open>
  What holds of lengths and positions whatever the start of the counter: the vector
  of \<open>address_normalise\<close> and each of the ten columns of \<open>parse_addr\<close> have the
  length of the input, and so has the vector of \<open>get_elements\<close> and of
  \<open>set_elements\<close> when they return one. Position \<open>k\<close> holds the result for the
  address at \<open>k\<close> when the loop reaches \<open>k\<close>, and the initial content of the
  vector when the counter starts above \<open>k\<close>.
\<close>

lemma output_lengths_and_positions:
  "length (snd (address_normalise e addresses)) = length addresses
   \<and> (\<forall>k<length addresses. snd (address_normalise e addresses) ! k =
         (case addresses ! k of None \<Rightarrow> None
          | Some a \<Rightarrow> (case expand_address e a of [] \<Rightarrow> Some a | x # _ \<Rightarrow> Some x)))
   \<and> length (snd (parse_addr e i0 addresses)) = 10
   \<and> (\<forall>m<10. length (snd (snd (parse_addr e i0 addresses) ! m)) = length addresses
         \<and> (\<forall>k<length addresses. snd (snd (parse_addr e i0 addresses) ! m) ! k =
               (if i0 \<le> k
                then (case addresses ! k of None \<Rightarrow> None | Some a \<Rightarrow> parse_single e a ! m)
                else None)))
   \<and> (\<forall>out. snd (get_elements e i0 addresses element) = Inr out \<longrightarrow>
         length out = length addresses
         \<and> (\<forall>k<length addresses.
               if i0 \<le> k
               then (case addresses ! k of None \<Rightarrow> Inr None
                     | Some a \<Rightarrow> slot (parse_single e a) element) = Inr (out ! k)
               else out ! k = Some ''''))
   \<and> (\<forall>out. snd (set_elements e i0 addresses new_value element) = Inr out \<longrightarrow>
         length out = length addresses
         \<and> (if length new_value = 1 \<and> new_value ! 0 = None then out = addresses
             else (\<forall>k<length addresses.
               if i0 \<le> k
               then (case addresses ! k of None \<Rightarrow> Inr None
                     | Some a \<Rightarrow>
                         (case new_value ! (if length new_value = 1 then 0 else k) of
                            None \<Rightarrow> Inr (Some a)
                          | Some nv \<Rightarrow> replace_field e a element nv))
                    = Inr (out ! k)
               else out ! k = Some '''')))"
proof -
  have n: "length (snd (address_normalise e addresses)) = length addresses
   \<and> (\<forall>k<length addresses. snd (address_normalise e addresses) ! k =
         (case addresses ! k of None \<Rightarrow> None
          | Some a \<Rightarrow> (case expand_address e a of [] \<Rightarrow> Some a | x # _ \<Rightarrow> Some x)))"
    using address_normalise_run [of e addresses] by simp
  have "length (map fst (snd (parse_addr e i0 addresses))) = 10"
    using parse_addr_run [of e i0 addresses] by (simp only: field_names_def) simp
  then have p1: "length (snd (parse_addr e i0 addresses)) = 10"
    by simp
  have p2: "\<forall>m<10. length (snd (snd (parse_addr e i0 addresses) ! m)) = length addresses
         \<and> (\<forall>k<length addresses. snd (snd (parse_addr e i0 addresses) ! m) ! k =
               (if i0 \<le> k
                then (case addresses ! k of None \<Rightarrow> None | Some a \<Rightarrow> parse_single e a ! m)
                else None))"
    using parse_addr_run [of e i0 addresses] by simp
  have g: "length out = length addresses
         \<and> (\<forall>k<length addresses.
               if i0 \<le> k
               then (case addresses ! k of None \<Rightarrow> Inr None
                     | Some a \<Rightarrow> slot (parse_single e a) element) = Inr (out ! k)
               else out ! k = Some '''')"
    if "snd (get_elements e i0 addresses element) = Inr out" for out
  proof -
    have "get_elements e i0 addresses element = (fst (get_elements e i0 addresses element), Inr out)"
      using that by (simp add: prod_eq_iff)
    from get_elements_Inr [OF this] show ?thesis by simp
  qed
  have s: "length out = length addresses
         \<and> (if length new_value = 1 \<and> new_value ! 0 = None then out = addresses
             else (\<forall>k<length addresses.
               if i0 \<le> k
               then (case addresses ! k of None \<Rightarrow> Inr None
                     | Some a \<Rightarrow>
                         (case new_value ! (if length new_value = 1 then 0 else k) of
                            None \<Rightarrow> Inr (Some a)
                          | Some nv \<Rightarrow> replace_field e a element nv))
                    = Inr (out ! k)
               else out ! k = Some ''''))"
    if "snd (set_elements e i0 addresses new_value element) = Inr out" for out
  proof -
    have "set_elements e i0 addresses new_value element
        = (fst (set_elements e i0 addresses new_value element), Inr out)"
      using that by (simp add: prod_eq_iff)
    from set_elements_Inr [OF this] show ?thesis
      by (cases "length new_value = 1 \<and> new_value ! 0 = None") simp_all
  qed
  show ?thesis
    using n p1 p2 g s by (intro conjI allI impI) blast+
qed

section \<open>Output positions that do not come from their input position\<close>

text \<open>
  Claim C4. The claim asks every batch operation to produce an output of the
  length of the input in which position \<open>i\<close> corresponds to input position \<open>i\<close>.
  The code fails it in two ways. When the counter, which the code does not
  initialise, starts at 1, \<open>get_elements\<close>, \<open>parse_addr\<close> and \<open>set_elements\<close>
  never visit position 0: for the address \<open>12 bar rd\<close> there, whose road is
  \<open>bar rd\<close>, the output at 0 is the initial content of the vector, the same as for
  a missing address, where a counter starting at 0 gives the road. And
  \<open>set_elements\<close> produces no output at all when the parsed field value does not
  occur in the address text.
\<close>

theorem output_position_not_from_input:
  "get_elements example_engine 1 [Some ''12 bar rd'', None] 2 = ([], Inr [Some '''', None])
   \<and> get_elements example_engine 1 [None, None] 2 = ([], Inr [Some '''', None])
   \<and> get_elements example_engine 0 [Some ''12 bar rd'', None] 2 = ([0], Inr [Some ''bar rd'', None])
   \<and> snd (snd (parse_addr example_engine 1 [Some ''12 bar rd'', None]) ! 2) = [None, None]
   \<and> snd (snd (parse_addr example_engine 0 [Some ''12 bar rd'', None]) ! 2) = [Some ''bar rd'', None]
   \<and> set_elements example_engine 1 [Some ''12 bar rd'', None] [Some ''main st''] 2
       = ([], Inr [Some '''', None])
   \<and> set_elements example_engine 0 [Some ''12 Bar Rd'', None] [Some ''Main St''] 2
       = ([0], Inl ReplaceOutOfRange)"
  by (simp add: get_elements_def get_step_def parse_addr_def parse_step_def na_columns_def
      data_frame_def for_loop.simps set_elements_def set_step_single_def replace_field_def
      string_replace_def for_loop_exn.simps slot_def parse_single_def example_engine_def
      store_component_def isna_def Let_def)

end
